theory Spec2Isabelle
  imports Main "HOL-Library.Sublist" "HOL-Library.AList"
begin

section \<open>The crawler of \<^verbatim>\<open>src/main.py\<close>\<close>

text \<open>
  \<^verbatim>\<open>WebCrawler\<close> keeps two fields, \<^verbatim>\<open>index\<close> (a dictionary from URL to page text) and
  \<^verbatim>\<open>visited\<close> (a set of URLs). \<^verbatim>\<open>crawl\<close> fetches a page with \<^verbatim>\<open>requests.get\<close>, parses it
  with \<^verbatim>\<open>BeautifulSoup\<close>, resolves every link with \<^verbatim>\<open>urljoin\<close> and recurses into the links
  that start with the base URL. \<^verbatim>\<open>search\<close> runs a regular expression over every indexed
  text.

  Strings are \<open>string\<close>; the characters the model knows about are ASCII (a byte above 127
  is neither a word character nor a letter with a case).
\<close>

subsection \<open>Exceptions and the libraries the crawler calls\<close>

text \<open>
  Any Python \<^verbatim>\<open>Exception\<close> is a value carrying its message (what \<^verbatim>\<open>{e}\<close> prints).
\<close>

datatype exn = Exception string

fun message :: "exn \<Rightarrow> string" where
  "message (Exception m) = m"

text \<open>
  What the crawler reads from a parsed document: \<^verbatim>\<open>soup.get_text()\<close>, and for every
  element of \<^verbatim>\<open>soup.find_all('a')\<close>, in document order, the value of
  \<^verbatim>\<open>link.get('href')\<close> (\<open>None\<close> when the attribute is missing).
\<close>

record soup =
  get_text :: string
  find_all_a :: "string option list"

text \<open>
  The three library functions are not code of the repository; they are parameters of the
  model. \<^verbatim>\<open>requests.get(url)\<close> either raises or returns a response, of which the crawler
  reads \<^verbatim>\<open>response.text\<close>. \<^verbatim>\<open>BeautifulSoup(text, 'html.parser')\<close> accepts every string.
  \<^verbatim>\<open>urljoin(base, href)\<close> either raises (\<^verbatim>\<open>ValueError\<close> on a malformed URL) or returns the
  absolute URL.
\<close>

record env =
  requests_get :: "string \<Rightarrow> exn + string"
  BeautifulSoup :: "string \<Rightarrow> soup"
  urljoin :: "string \<Rightarrow> string \<Rightarrow> exn + string"

subsection \<open>The state of a crawler\<close>

text \<open>
  \<open>index\<close> is the dictionary in insertion order (\<^verbatim>\<open>search\<close> iterates over
  \<^verbatim>\<open>self.index.items()\<close>), \<open>visited\<close> the set. Two more components record the effects of
  \<^verbatim>\<open>crawl\<close> on the outside: \<open>requested\<close>, the URLs \<^verbatim>\<open>requests.get\<close> was called with, in
  call order, and \<open>stdout\<close>, the lines printed.
\<close>

record crawler =
  index :: "(string \<times> string) list"
  visited :: "string set"
  requested :: "string list"
  stdout :: "string list"

text \<open>\<^verbatim>\<open>WebCrawler.__init__\<close>\<close>

definition init :: crawler where
  "init = \<lparr>index = [], visited = {}, requested = [], stdout = []\<rparr>"

text \<open>\<^verbatim>\<open>base_url or url\<close>: \<^verbatim>\<open>None\<close> and the empty string are both false in Python.\<close>

definition py_or :: "string option \<Rightarrow> string \<Rightarrow> string" where
  "py_or base_url url = (case base_url of None \<Rightarrow> url | Some b \<Rightarrow> if b = [] then url else b)"

text \<open>\<^verbatim>\<open>self.index[url] = text\<close>: a new key goes to the end, an old key keeps its place.\<close>

definition store :: "string \<Rightarrow> string \<Rightarrow> crawler \<Rightarrow> crawler" where
  "store url text s = s\<lparr>index := AList.update url text (index s)\<rparr>"

text \<open>\<^verbatim>\<open>print(f"Error crawling {url}: {e}")\<close>\<close>

definition print_error :: "string \<Rightarrow> exn \<Rightarrow> crawler \<Rightarrow> crawler" where
  "print_error url e s = s\<lparr>stdout := stdout s @ [''Error crawling '' @ url @ '': '' @ message e]\<rparr>"

subsection \<open>\<^verbatim>\<open>WebCrawler.crawl\<close>\<close>

text \<open>
  The \<^verbatim>\<open>for\<close> loop over the links (lines 22 to 28). \<open>rec\<close> is the recursive call
  \<^verbatim>\<open>self.crawl(href, base_url=base_url or url)\<close>; it returns \<open>None\<close> when it does not
  return. The loop ends either normally or with the exception that \<^verbatim>\<open>urljoin\<close> raised,
  in the state reached so far.
\<close>

fun for_links ::
  "(string \<Rightarrow> crawler \<Rightarrow> crawler option) \<Rightarrow> env \<Rightarrow> string \<Rightarrow> string option \<Rightarrow>
   string option list \<Rightarrow> crawler \<Rightarrow> (crawler \<times> exn option) option" where
  "for_links rec E url base_url [] s = Some (s, None)"
| "for_links rec E url base_url (link # links) s =
     (case link of
        None \<Rightarrow> for_links rec E url base_url links s
      | Some href \<Rightarrow>
          if href = [] then for_links rec E url base_url links s
          else
            (case urljoin E (py_or base_url url) href of
               Inl e \<Rightarrow> Some (s, Some e)
             | Inr href' \<Rightarrow>
                 if prefix (py_or base_url url) href' then
                   (case rec href' s of
                      None \<Rightarrow> None
                    | Some s' \<Rightarrow> for_links rec E url base_url links s')
                 else for_links rec E url base_url links s))"

text \<open>
  \<^verbatim>\<open>crawl\<close> itself. The recursion of the source is not bounded, so the model takes the
  depth it may recurse to: \<open>crawl E n\<close> is \<open>None\<close> when the call needs more than \<open>n\<close>
  nested calls, and the crawl that never returns is \<open>None\<close> for every \<open>n\<close>. (The
  interpreter's own recursion limit is a resource of the machine and is not modelled.) The
  \<^verbatim>\<open>except Exception\<close> clause catches what the \<^verbatim>\<open>try\<close> block raises, with the state as the
  block left it: the lines before the \<^verbatim>\<open>try\<close> cannot raise, so a call either returns a
  state or does not return.
\<close>

fun crawl :: "env \<Rightarrow> nat \<Rightarrow> string \<Rightarrow> string option \<Rightarrow> crawler \<Rightarrow> crawler option" where
  "crawl E 0 url base_url s = None"
| "crawl E (Suc n) url base_url s =
     (if url \<in> visited s then Some s
      else
        let s1 = s\<lparr>visited := insert url (visited s)\<rparr>;
            s2 = s1\<lparr>requested := requested s1 @ [url]\<rparr>
        in (case requests_get E url of
              Inl e \<Rightarrow> Some (print_error url e s2)
            | Inr text \<Rightarrow>
               let soup = BeautifulSoup E text;
                   s3 = store url (get_text soup) s2
               in (case for_links (\<lambda>href. crawl E n href (Some (py_or base_url url)))
                          E url base_url (find_all_a soup) s3 of
                     None \<Rightarrow> None
                   | Some (s4, None) \<Rightarrow> Some s4
                   | Some (s4, Some e) \<Rightarrow> Some (print_error url e s4))))"

subsection \<open>\<^verbatim>\<open>WebCrawler.search\<close>\<close>

text \<open>
  The pattern is \<^verbatim>\<open>r'\b' + re.escape(keyword) + r'\b'\<close>: a word boundary, the characters
  of the keyword as literals (that is what \<^verbatim>\<open>re.escape\<close> is for), a word boundary.
\<close>

datatype re_item = Boundary | Literal char

definition re_escape :: "string \<Rightarrow> re_item list" where
  "re_escape keyword = map Literal keyword"

text \<open>\<^verbatim>\<open>\w\<close> on ASCII: letters, digits and the underscore.\<close>

definition is_word :: "char \<Rightarrow> bool" where
  "is_word c =
     (let n = (of_char c :: nat)
      in (48 \<le> n \<and> n \<le> 57) \<or> (65 \<le> n \<and> n \<le> 90) \<or> n = 95 \<or> (97 \<le> n \<and> n \<le> 122))"

text \<open>\<^verbatim>\<open>re.IGNORECASE\<close> on ASCII: two characters match when their lower cases are equal.\<close>

definition lower :: "char \<Rightarrow> char" where
  "lower c =
     (let n = (of_char c :: nat)
      in if 65 \<le> n \<and> n \<le> 90 then char_of (n + 32) else c)"

text \<open>
  \<^verbatim>\<open>\b\<close> holds at a position when exactly one of the character before it and the
  character after it is a word character; the start and the end of the text count as
  non-word characters. \<open>prev\<close> is the character before the position, \<open>t\<close> the text from
  the position on.
\<close>

definition word_before :: "char option \<Rightarrow> bool" where
  "word_before prev = (case prev of None \<Rightarrow> False | Some c \<Rightarrow> is_word c)"

definition word_after :: "string \<Rightarrow> bool" where
  "word_after t = (case t of [] \<Rightarrow> False | c # _ \<Rightarrow> is_word c)"

definition at_boundary :: "char option \<Rightarrow> string \<Rightarrow> bool" where
  "at_boundary prev t = (word_before prev \<noteq> word_after t)"

text \<open>Matching the pattern at one position, and \<^verbatim>\<open>re.search\<close>: at some position.\<close>

fun re_match :: "re_item list \<Rightarrow> char option \<Rightarrow> string \<Rightarrow> bool" where
  "re_match [] prev t = True"
| "re_match (Boundary # ps) prev t = (at_boundary prev t \<and> re_match ps prev t)"
| "re_match (Literal c # ps) prev [] = False"
| "re_match (Literal c # ps) prev (d # t) = (lower c = lower d \<and> re_match ps (Some d) t)"

fun re_search :: "re_item list \<Rightarrow> char option \<Rightarrow> string \<Rightarrow> bool" where
  "re_search ps prev [] = re_match ps prev []"
| "re_search ps prev (d # t) = (re_match ps prev (d # t) \<or> re_search ps (Some d) t)"

definition search :: "crawler \<Rightarrow> string \<Rightarrow> string list" where
  "search s keyword =
     map fst (filter (\<lambda>(url, text). re_search (Boundary # re_escape keyword @ [Boundary]) None text)
                     (index s))"

section \<open>The link graph\<close>

text \<open>
  The URLs the loop of a page calls \<^verbatim>\<open>crawl\<close> with, in order: the links that have an
  \<^verbatim>\<open>href\<close>, resolve, and start with the base. The list ends at the first link whose
  resolution raises, as the loop does.
\<close>

fun link_targets :: "env \<Rightarrow> string \<Rightarrow> string option \<Rightarrow> string option list \<Rightarrow> string list" where
  "link_targets E url base_url [] = []"
| "link_targets E url base_url (link # links) =
     (case link of
        None \<Rightarrow> link_targets E url base_url links
      | Some href \<Rightarrow>
          if href = [] then link_targets E url base_url links
          else
            (case urljoin E (py_or base_url url) href of
               Inl e \<Rightarrow> []
             | Inr href' \<Rightarrow>
                 if prefix (py_or base_url url) href' then href' # link_targets E url base_url links
                 else link_targets E url base_url links))"

text \<open>The links of the page at \<open>url\<close>; a page that cannot be fetched has none.\<close>

definition page_links :: "env \<Rightarrow> string \<Rightarrow> string option \<Rightarrow> string list" where
  "page_links E url base_url =
     (case requests_get E url of
        Inl e \<Rightarrow> []
      | Inr text \<Rightarrow> link_targets E url base_url (find_all_a (BeautifulSoup E text)))"

text \<open>
  The calls \<^verbatim>\<open>crawl(url, base_url)\<close> can lead to: a URL together with the base it is
  crawled under. The URLs among them are the reachable URLs of the link graph.
\<close>

inductive_set reach :: "env \<Rightarrow> string \<Rightarrow> string option \<Rightarrow> (string \<times> string option) set"
  for E :: env and url :: string and base_url :: "string option" where
  start: "(url, base_url) \<in> reach E url base_url"
| link: "(u, b) \<in> reach E url base_url \<Longrightarrow> h \<in> set (page_links E u b) \<Longrightarrow>
         (h, Some (py_or b u)) \<in> reach E url base_url"

text \<open>A set of calls that contains, with every call, the calls of its page's links.\<close>

definition closed :: "env \<Rightarrow> (string \<times> string option) set \<Rightarrow> bool" where
  "closed E N = (\<forall>(u, b) \<in> N. \<forall>h \<in> set (page_links E u b). (h, Some (py_or b u)) \<in> N)"

section \<open>Notions of the specification\<close>

text \<open>
  The origin of a URL, in the words of the glossary: "Origin: scheme + host (+ port) of a
  URL". The scheme is what precedes the first colon; host and port are what follows
  \<^verbatim>\<open>://\<close> up to the path, the query or the fragment. The source has no such function (it
  imports \<^verbatim>\<open>urlparse\<close> and does not call it); the origin is needed only to state what the
  spec asks of the scope test.
\<close>

definition origin :: "string \<Rightarrow> string \<times> string" where
  "origin url =
     (takeWhile (\<lambda>c. c \<noteq> CHR '':'') url,
      takeWhile (\<lambda>c. c \<notin> set ''/?#'') (drop 3 (dropWhile (\<lambda>c. c \<noteq> CHR '':'') url)))"


section \<open>What a call of \<^verbatim>\<open>crawl\<close> changes\<close>

text \<open>The state after lines 15 and 18: the URL is marked, then requested.\<close>

definition visit :: "string \<Rightarrow> crawler \<Rightarrow> crawler" where
  "visit url s = s\<lparr>visited := insert url (visited s), requested := requested s @ [url]\<rparr>"

text \<open>
  The entry of \<open>u\<close> in the index once \<open>u\<close> has been crawled: the text of its page, or
  the old entry when the request raised.
\<close>

definition indexed_text :: "env \<Rightarrow> string \<Rightarrow> string option \<Rightarrow> string option" where
  "indexed_text E u old =
     (case requests_get E u of
        Inl e \<Rightarrow> old
      | Inr text \<Rightarrow> Some (get_text (BeautifulSoup E text)))"

text \<open>
  \<open>effect E s s'\<close>: from \<open>s\<close> to \<open>s'\<close> the visited set grew, every new member was
  requested exactly once, and the index changed at the new members only.
\<close>

definition effect :: "env \<Rightarrow> crawler \<Rightarrow> crawler \<Rightarrow> bool" where
  "effect E s s' \<longleftrightarrow>
     visited s \<subseteq> visited s' \<and>
     (\<exists>new. requested s' = requested s @ new \<and> distinct new \<and> set new = visited s' - visited s) \<and>
     (\<forall>u. map_of (index s') u =
        (if u \<in> visited s' \<and> u \<notin> visited s then indexed_text E u (map_of (index s) u)
         else map_of (index s) u))"

text \<open>The character before a position that lies \<open>pre\<close> further on.\<close>

definition before :: "char option \<Rightarrow> string \<Rightarrow> char option" where
  "before prev pre = (if pre = [] then prev else Some (last pre))"

section \<open>Test sites\<close>

text \<open>
  Stand-ins for the three libraries, as the tests of \<^verbatim>\<open>src/main.py\<close> patch
  \<^verbatim>\<open>requests.get\<close>. \<open>urljoin_fixture\<close> has the values of \<^verbatim>\<open>urljoin\<close> for a base on
  \<^verbatim>\<open>https://example.com\<close>: an \<^verbatim>\<open>href\<close> that starts with a slash replaces the path, an
  absolute URL is returned as it is, and \<^verbatim>\<open>http://[\<close> raises
  \<^verbatim>\<open>ValueError("Invalid IPv6 URL")\<close>. \<open>parse_fixture\<close> has the text and the links of
  the documents used below; a string without tags is its own text and has no links.
\<close>

definition urljoin_fixture :: "string \<Rightarrow> string \<Rightarrow> exn + string" where
  "urljoin_fixture base href =
     (if href = ''http://['' then Inl (Exception ''Invalid IPv6 URL'')
      else if take 1 href = ''/'' then Inr (''https://example.com'' @ href)
      else Inr href)"

definition parse_fixture :: "string \<Rightarrow> soup" where
  "parse_fixture text =
     (if text = ''<a href=https://example.com.evil.com>Evil</a><a href=https://www.external.com>External</a>''
      then \<lparr>get_text = ''EvilExternal'',
            find_all_a = [Some ''https://example.com.evil.com'', Some ''https://www.external.com'']\<rparr>
      else if text = ''<a href=/about>About Us</a><a href=/about>About Us Again</a>''
      then \<lparr>get_text = ''About UsAbout Us Again'', find_all_a = [Some ''/about'', Some ''/about'']\<rparr>
      else if text = ''<a href=/b>B</a>''
      then \<lparr>get_text = ''B'', find_all_a = [Some ''/b'']\<rparr>
      else if text = ''<a href=https://example.com>A</a>''
      then \<lparr>get_text = ''A'', find_all_a = [Some ''https://example.com'']\<rparr>
      else if text = ''<a href=http://[>bad</a><a href=/b>B</a>''
      then \<lparr>get_text = ''badB'', find_all_a = [Some ''http://['', Some ''/b'']\<rparr>
      else if text = ''<a href=/b>B</a><a href=/c>C</a>''
      then \<lparr>get_text = ''BC'', find_all_a = [Some ''/b'', Some ''/c'']\<rparr>
      else \<lparr>get_text = text, find_all_a = []\<rparr>)"

definition mock :: "(string \<Rightarrow> exn + string) \<Rightarrow> env" where
  "mock get = \<lparr>requests_get = get, BeautifulSoup = parse_fixture, urljoin = urljoin_fixture\<rparr>"

definition pages :: "(string \<times> string) list \<Rightarrow> string \<Rightarrow> exn + string" where
  "pages table url =
     (case map_of table url of
        None \<Rightarrow> Inl (Exception ''Test Error'')
      | Some text \<Rightarrow> Inr text)"

text \<open>A page that links to a foreign host whose name starts with the name of the site.\<close>

definition site_evil :: env where
  "site_evil = mock (pages
     [(''https://example.com'',
       ''<a href=https://example.com.evil.com>Evil</a><a href=https://www.external.com>External</a>''),
      (''https://example.com.evil.com'', ''gotcha'')])"

text \<open>\<^verbatim>\<open>test_crawl_duplicate_links\<close>: every URL answers with the same two links.\<close>

definition site_dup :: env where
  "site_dup = mock (\<lambda>url. Inr ''<a href=/about>About Us</a><a href=/about>About Us Again</a>'')"

text \<open>Two pages that link to each other.\<close>

definition site_cycle :: env where
  "site_cycle = mock (pages
     [(''https://example.com'', ''<a href=/b>B</a>''),
      (''https://example.com/b'', ''<a href=https://example.com>A</a>'')])"

text \<open>A page whose first link cannot be resolved.\<close>

definition site_bad :: env where
  "site_bad = mock (pages
     [(''https://example.com'', ''<a href=http://[>bad</a><a href=/b>B</a>''),
      (''https://example.com/b'', ''b page'')])"

text \<open>A page with two links; the request for the first raises.\<close>

definition site_fail :: env where
  "site_fail = mock (pages
     [(''https://example.com'', ''<a href=/b>B</a><a href=/c>C</a>''),
      (''https://example.com/c'', ''c page'')])"


section \<open>Lemmas about the crawl\<close>

lemma init_fields [simp]:
  "index init = []" "visited init = {}" "requested init = []" "stdout init = []"
  by (simp_all add: init_def)

lemma print_error_fields [simp]:
  "visited (print_error url e s) = visited s"
  "index (print_error url e s) = index s"
  "requested (print_error url e s) = requested s"
  by (simp_all add: print_error_def)

lemma visit_fields [simp]:
  "visited (visit url s) = insert url (visited s)"
  "index (visit url s) = index s"
  "requested (visit url s) = requested s @ [url]"
  "stdout (visit url s) = stdout s"
  by (simp_all add: visit_def)

lemma store_fields [simp]:
  "visited (store url t s) = visited s"
  "index (store url t s) = AList.update url t (index s)"
  "requested (store url t s) = requested s"
  "stdout (store url t s) = stdout s"
  by (simp_all add: store_def)

subsection \<open>The equations of the loop and of the call\<close>

lemma for_links_Cons_cases [consumes 1, case_names skip raised call]:
  assumes "for_links rec E url b (link # links) s = Some r"
  obtains
    "for_links rec E url b links s = Some r"
      and "\<And>rec'. for_links rec' E url b (link # links) s = for_links rec' E url b links s"
      and "link_targets E url b (link # links) = link_targets E url b links"
  | href e where "link = Some href" and "href \<noteq> []"
      and "urljoin E (py_or b url) href = Inl e" and "r = (s, Some e)"
  | href h s1 where "link = Some href" and "href \<noteq> []"
      and "urljoin E (py_or b url) href = Inr h" and "prefix (py_or b url) h"
      and "rec h s = Some s1" and "for_links rec E url b links s1 = Some r"
  using assms by (auto split: option.splits sum.splits if_splits)

declare crawl.simps [simp del]

lemma crawl_0 [simp]: "crawl E 0 url b s = None"
  by (simp add: crawl.simps)

lemma crawl_visited [simp]: "url \<in> visited s \<Longrightarrow> crawl E (Suc n) url b s = Some s"
  by (simp add: crawl.simps)

lemma crawl_failed:
  "url \<notin> visited s \<Longrightarrow> requests_get E url = Inl e \<Longrightarrow>
   crawl E (Suc n) url b s = Some (print_error url e (visit url s))"
  by (simp add: crawl.simps visit_def)

lemma crawl_fetched:
  "url \<notin> visited s \<Longrightarrow> requests_get E url = Inr content \<Longrightarrow>
   crawl E (Suc n) url b s =
     (case for_links (\<lambda>h. crawl E n h (Some (py_or b url))) E url b
             (find_all_a (BeautifulSoup E content))
             (store url (get_text (BeautifulSoup E content)) (visit url s)) of
        None \<Rightarrow> None
      | Some (s4, None) \<Rightarrow> Some s4
      | Some (s4, Some e) \<Rightarrow> Some (print_error url e s4))"
  by (simp add: crawl.simps visit_def store_def Let_def)

lemma crawl_Suc_cases [consumes 1, case_names visited failed fetched]:
  assumes "crawl E (Suc n) url b s = Some s'"
  obtains
    "url \<in> visited s" and "s' = s"
  | e where "url \<notin> visited s" and "requests_get E url = Inl e"
      and "s' = print_error url e (visit url s)"
  | content s4 x where "url \<notin> visited s" and "requests_get E url = Inr content"
      and "for_links (\<lambda>h. crawl E n h (Some (py_or b url))) E url b
             (find_all_a (BeautifulSoup E content))
             (store url (get_text (BeautifulSoup E content)) (visit url s)) = Some (s4, x)"
      and "s' = (case x of None \<Rightarrow> s4 | Some e \<Rightarrow> print_error url e s4)"
proof (cases "url \<in> visited s")
  case True
  with assms have "s' = s" by simp
  with True show ?thesis by (rule that(1))
next
  case False
  show ?thesis
  proof (cases "requests_get E url")
    case (Inl e)
    with assms False have "s' = print_error url e (visit url s)"
      by (simp add: crawl_failed)
    with False Inl show ?thesis by (rule that(2))
  next
    case (Inr content)
    let ?loop = "for_links (\<lambda>h. crawl E n h (Some (py_or b url))) E url b
             (find_all_a (BeautifulSoup E content))
             (store url (get_text (BeautifulSoup E content)) (visit url s))"
    have "crawl E (Suc n) url b s =
      (case ?loop of None \<Rightarrow> None | Some (s4, None) \<Rightarrow> Some s4
       | Some (s4, Some e) \<Rightarrow> Some (print_error url e s4))"
      using False Inr by (rule crawl_fetched)
    from this[symmetric] assms have c: "(case ?loop of None \<Rightarrow> None | Some (s4, None) \<Rightarrow> Some s4
       | Some (s4, Some e) \<Rightarrow> Some (print_error url e s4)) = Some s'"
      by (rule trans)
    then obtain s4 x where l: "?loop = Some (s4, x)"
      by (cases ?loop) auto
    with c have "s' = (case x of None \<Rightarrow> s4 | Some e \<Rightarrow> print_error url e s4)"
      by (cases x) auto
    with False Inr l show ?thesis by (rule that(3))
  qed
qed

subsection \<open>More depth changes nothing\<close>

lemma for_links_mono:
  assumes "\<And>h s s'. rec h s = Some s' \<Longrightarrow> rec' h s = Some s'"
  shows "for_links rec E url b links s = Some r \<Longrightarrow> for_links rec' E url b links s = Some r"
proof (induction links arbitrary: s)
  case Nil
  then show ?case by simp
next
  case (Cons link links)
  from Cons.prems show ?case
  proof (cases rule: for_links_Cons_cases)
    case skip
    from Cons.IH[OF skip(1)] show ?thesis
      by (simp only: skip(2))
  next
    case (raised href e)
    then show ?thesis by simp
  next
    case (call href h s1)
    with assms[OF call(5)] Cons.IH[OF call(6)] show ?thesis by simp
  qed
qed

lemma crawl_Suc: "crawl E n url b s = Some s' \<Longrightarrow> crawl E (Suc n) url b s = Some s'"
proof (induction n arbitrary: url b s s')
  case 0
  then show ?case by simp
next
  case (Suc n)
  from Suc.prems show ?case
  proof (cases rule: crawl_Suc_cases)
    case visited
    then show ?thesis by simp
  next
    case (failed e)
    then show ?thesis by (simp add: crawl_failed)
  next
    case (fetched content s4 x)
    from fetched(3) have "for_links (\<lambda>h. crawl E (Suc n) h (Some (py_or b url))) E url b
        (find_all_a (BeautifulSoup E content))
        (store url (get_text (BeautifulSoup E content)) (visit url s)) = Some (s4, x)"
      by (rule for_links_mono[rotated]) (rule Suc.IH)
    with fetched show ?thesis
      by (simp add: crawl_fetched split: option.splits)
  qed
qed

lemma crawl_mono: "crawl E n url b s = Some s' \<Longrightarrow> n \<le> m \<Longrightarrow> crawl E m url b s = Some s'"
  by (induction m) (auto simp: le_Suc_eq dest: crawl_Suc)

subsection \<open>What a call changes\<close>

lemma effect_refl: "effect E s s"
  by (simp add: effect_def)

lemma effect_trans:
  assumes "effect E s s'" and "effect E s' s''"
  shows "effect E s s''"
proof -
  from assms obtain new1 new2 where
    n1: "requested s' = requested s @ new1" "distinct new1" "set new1 = visited s' - visited s" and
    n2: "requested s'' = requested s' @ new2" "distinct new2" "set new2 = visited s'' - visited s'"
    unfolding effect_def by blast
  from assms have sub: "visited s \<subseteq> visited s'" "visited s' \<subseteq> visited s''"
    by (simp_all add: effect_def)
  have r: "requested s'' = requested s @ (new1 @ new2) \<and> distinct (new1 @ new2) \<and>
           set (new1 @ new2) = visited s'' - visited s"
    using n1 n2 sub by auto
  have i: "map_of (index s'') u =
        (if u \<in> visited s'' \<and> u \<notin> visited s then indexed_text E u (map_of (index s) u)
         else map_of (index s) u)" for u
  proof -
    from assms have a: "map_of (index s') u =
        (if u \<in> visited s' \<and> u \<notin> visited s then indexed_text E u (map_of (index s) u)
         else map_of (index s) u)"
      and b: "map_of (index s'') u =
        (if u \<in> visited s'' \<and> u \<notin> visited s' then indexed_text E u (map_of (index s') u)
         else map_of (index s') u)"
      by (simp_all add: effect_def)
    show ?thesis
      using sub by (simp only: a b) auto
  qed
  from sub r i show ?thesis
    unfolding effect_def by blast
qed

lemma effect_print_error: "effect E s s' \<Longrightarrow> effect E s (print_error url e s')"
  by (simp add: effect_def)

lemma effect_visit_failed:
  assumes "url \<notin> visited s" and "requests_get E url = Inl e"
  shows "effect E s (visit url s)"
  using assms by (auto simp: effect_def indexed_text_def)

lemma effect_visit_store:
  assumes "url \<notin> visited s" and "requests_get E url = Inr content"
  shows "effect E s (store url (get_text (BeautifulSoup E content)) (visit url s))"
  using assms by (auto simp: effect_def indexed_text_def update_conv')

lemma for_links_effect:
  assumes "\<And>h s s'. rec h s = Some s' \<Longrightarrow> effect E s s'"
  shows "for_links rec E url b links s = Some (s', x) \<Longrightarrow> effect E s s'"
proof (induction links arbitrary: s)
  case Nil
  then show ?case by (simp add: effect_refl)
next
  case (Cons link links)
  from Cons.prems show ?case
  proof (cases rule: for_links_Cons_cases)
    case skip
    then show ?thesis by (intro Cons.IH)
  next
    case (raised href e)
    then show ?thesis by (simp add: effect_refl)
  next
    case (call href h s1)
    from assms[OF call(5)] Cons.IH[OF call(6)] show ?thesis by (rule effect_trans)
  qed
qed

lemma crawl_effect: "crawl E n url b s = Some s' \<Longrightarrow> effect E s s'"
proof (induction n arbitrary: url b s s')
  case 0
  then show ?case by simp
next
  case (Suc n)
  from Suc.prems show ?case
  proof (cases rule: crawl_Suc_cases)
    case visited
    then show ?thesis by (simp add: effect_refl)
  next
    case (failed e)
    then show ?thesis by (auto intro!: effect_print_error effect_visit_failed)
  next
    case (fetched content s4 x)
    from fetched(3) have "effect E (store url (get_text (BeautifulSoup E content)) (visit url s)) s4"
      by (rule for_links_effect[rotated]) (rule Suc.IH)
    with effect_visit_store[OF fetched(1,2)] have "effect E s s4"
      by (rule effect_trans)
    with fetched(4) show ?thesis
      by (auto intro: effect_print_error split: option.splits)
  qed
qed

lemma crawl_visited_mono: "crawl E n url b s = Some s' \<Longrightarrow> visited s \<subseteq> visited s'"
  by (drule crawl_effect) (simp add: effect_def)

lemma crawl_visits_url:
  assumes "crawl E n url b s = Some s'"
  shows "url \<in> visited s'"
proof (cases n)
  case 0
  with assms show ?thesis by simp
next
  case (Suc m)
  with assms have "crawl E (Suc m) url b s = Some s'" by simp
  then show ?thesis
  proof (cases rule: crawl_Suc_cases)
    case visited
    then show ?thesis by simp
  next
    case (failed e)
    then show ?thesis by simp
  next
    case (fetched content s4 x)
    from fetched(3) have "effect E (store url (get_text (BeautifulSoup E content)) (visit url s)) s4"
      by (rule for_links_effect[rotated]) (rule crawl_effect)
    then have "url \<in> visited s4" by (auto simp: effect_def)
    with fetched(4) show ?thesis by (auto split: option.splits)
  qed
qed

subsection \<open>Scope\<close>

lemma for_links_scope:
  assumes "\<And>h s s' u. prefix (py_or b url) h \<Longrightarrow> rec h s = Some s' \<Longrightarrow>
             u \<in> visited s' \<Longrightarrow> u \<notin> visited s \<Longrightarrow> prefix (py_or b url) u"
  shows "for_links rec E url b links s = Some (s', x) \<Longrightarrow> u \<in> visited s' \<Longrightarrow> u \<notin> visited s \<Longrightarrow>
         prefix (py_or b url) u"
proof (induction links arbitrary: s)
  case Nil
  then show ?case by simp
next
  case (Cons link links)
  from Cons.prems(1) show ?case
  proof (cases rule: for_links_Cons_cases)
    case skip
    from Cons.IH[OF skip(1) Cons.prems(2,3)] show ?thesis .
  next
    case (raised href e)
    with Cons.prems show ?thesis by simp
  next
    case (call href h s1)
    show ?thesis
    proof (cases "u \<in> visited s1")
      case True
      from assms[OF call(4,5) True Cons.prems(3)] show ?thesis .
    next
      case False
      from Cons.IH[OF call(6) Cons.prems(2) False] show ?thesis .
    qed
  qed
qed

lemma py_or_Some: "py_or (Some S) h = (if S = [] then h else S)"
  by (simp add: py_or_def)

lemma crawl_scope:
  "crawl E n url b s = Some s' \<Longrightarrow> u \<in> visited s' \<Longrightarrow> u \<notin> visited s \<Longrightarrow>
   u = url \<or> prefix (py_or b url) u"
proof (induction n arbitrary: url b s s' u)
  case 0
  then show ?case by simp
next
  case (Suc n)
  from Suc.prems(1) show ?case
  proof (cases rule: crawl_Suc_cases)
    case visited
    with Suc.prems show ?thesis by simp
  next
    case (failed e)
    with Suc.prems show ?thesis by simp
  next
    case (fetched content s4 x)
    have child: "prefix (py_or b url) w"
      if "prefix (py_or b url) h" and "crawl E n h (Some (py_or b url)) t = Some t'"
        and "w \<in> visited t'" and "w \<notin> visited t" for h t t' w
      using Suc.IH[OF that(2-4)] that(1) by (auto simp: py_or_Some split: if_splits)
    show ?thesis
    proof (cases "u = url")
      case True
      then show ?thesis by simp
    next
      case False
      from fetched(4) Suc.prems(2) have "u \<in> visited s4" by (auto split: option.splits)
      moreover from False Suc.prems(3)
      have "u \<notin> visited (store url (get_text (BeautifulSoup E content)) (visit url s))" by simp
      ultimately have "prefix (py_or b url) u"
        by (rule for_links_scope[OF child fetched(3), rotated 4])
      then show ?thesis ..
    qed
  qed
qed

subsection \<open>Every link the loop follows is visited\<close>

lemma for_links_visited_mono:
  assumes r: "\<And>h s s'. rec h s = Some s' \<Longrightarrow> effect E s s'"
    and l: "for_links rec E url b links s = Some (s', x)"
  shows "visited s \<subseteq> visited s'"
proof -
  from l have "effect E s s'"
    by (rule for_links_effect[rotated]) (rule r)
  then show ?thesis by (simp add: effect_def)
qed

lemma for_links_targets_visited:
  assumes eff: "\<And>h s s'. rec h s = Some s' \<Longrightarrow> effect E s s'"
    and vis: "\<And>h s s'. rec h s = Some s' \<Longrightarrow> h \<in> visited s'"
  shows "for_links rec E url b links s = Some (s', x) \<Longrightarrow>
         set (link_targets E url b links) \<subseteq> visited s'"
proof (induction links arbitrary: s)
  case Nil
  then show ?case by simp
next
  case (Cons link links)
  from Cons.prems show ?case
  proof (cases rule: for_links_Cons_cases)
    case skip
    from Cons.IH[OF skip(1)] skip(3) show ?thesis by simp
  next
    case (raised href e)
    then show ?thesis by simp
  next
    case (call href h s1)
    have "visited s1 \<subseteq> visited s'"
      using call(6) by (rule for_links_visited_mono[rotated]) (rule eff)
    with vis[OF call(5)] have "h \<in> visited s'"
      by blast
    with Cons.IH[OF call(6)] call(1-4) show ?thesis by simp
  qed
qed

lemma crawl_targets_visited:
  assumes "crawl E n url b s = Some s'" and "url \<notin> visited s"
  shows "set (page_links E url b) \<subseteq> visited s'"
proof (cases n)
  case 0
  with assms show ?thesis by simp
next
  case (Suc m)
  with assms have "crawl E (Suc m) url b s = Some s'" by simp
  then show ?thesis
  proof (cases rule: crawl_Suc_cases)
    case visited
    with assms show ?thesis by simp
  next
    case (failed e)
    then show ?thesis by (simp add: page_links_def)
  next
    case (fetched content s4 x)
    from fetched(3) have "set (link_targets E url b (find_all_a (BeautifulSoup E content))) \<subseteq> visited s4"
      by (rule for_links_targets_visited[rotated 2]) (erule crawl_effect, erule crawl_visits_url)
    with fetched(2,4) show ?thesis
      by (auto simp: page_links_def split: option.splits)
  qed
qed

subsection \<open>Termination\<close>

lemma reach_closed: "closed E (reach E url b)"
  unfolding closed_def by (auto intro: reach.link)

lemma reach_subset:
  assumes "closed E N" and "(url, b) \<in> N"
  shows "reach E url b \<subseteq> N"
proof -
  have "(u, c) \<in> N" if "(u, c) \<in> reach E url b" for u c
    using that
  proof (induction rule: reach.induct)
    case start
    from assms(2) show ?case .
  next
    case (link u c h)
    with assms(1) show ?case by (auto simp: closed_def)
  qed
  then show ?thesis by auto
qed

lemma for_links_terminates:
  assumes U: "finite U"
    and children: "\<And>h t. h \<in> set (link_targets E url b links) \<Longrightarrow> card (U - visited t) \<le> k \<Longrightarrow>
        \<exists>n t'. crawl E n h (Some (py_or b url)) t = Some t'"
  shows "card (U - visited s) \<le> k \<Longrightarrow>
         \<exists>n r. for_links (\<lambda>h. crawl E n h (Some (py_or b url))) E url b links s = Some r"
  using children
proof (induction links arbitrary: s)
  case Nil
  then show ?case by simp
next
  case (Cons link links)
  show ?case
  proof (cases link)
    case None
    with Cons show ?thesis by simp
  next
    case (Some href)
    show ?thesis
    proof (cases "href = []")
      case True
      with Cons Some show ?thesis by simp
    next
      case False
      note nonempty = this
      show ?thesis
      proof (cases "urljoin E (py_or b url) href")
        case (Inl e)
        with Some nonempty show ?thesis by simp
      next
        case (Inr h)
        show ?thesis
        proof (cases "prefix (py_or b url) h")
          case False
          with Cons Some nonempty Inr show ?thesis by simp
        next
          case True
          with Some nonempty Inr have tg: "link_targets E url b (link # links) = h # link_targets E url b links"
            by simp
          with Cons.prems(1) Cons.prems(2)[of h s] obtain n1 s1 where
            c1: "crawl E n1 h (Some (py_or b url)) s = Some s1" by auto
          from crawl_visited_mono[OF c1] have "U - visited s1 \<subseteq> U - visited s" by blast
          with U have "card (U - visited s1) \<le> card (U - visited s)"
            by (intro card_mono) auto
          with Cons.prems(1) have "card (U - visited s1) \<le> k" by simp
          from Cons.IH[OF this] Cons.prems(2) tg obtain n2 r where
            c2: "for_links (\<lambda>h. crawl E n2 h (Some (py_or b url))) E url b links s1 = Some r"
            by auto
          let ?n = "max n1 n2"
          from c1 have c1': "crawl E ?n h (Some (py_or b url)) s = Some s1"
            by (rule crawl_mono) simp
          have "for_links (\<lambda>h. crawl E ?n h (Some (py_or b url))) E url b links s1 = Some r"
            using c2 by (rule for_links_mono[rotated]) (erule crawl_mono, simp)
          with c1' Some nonempty Inr True
          have "for_links (\<lambda>h. crawl E ?n h (Some (py_or b url))) E url b (link # links) s = Some r"
            by simp
          then show ?thesis by blast
        qed
      qed
    qed
  qed
qed

lemma crawl_terminates_closed:
  assumes N: "finite N" "closed E N"
  shows "(url, b) \<in> N \<Longrightarrow> card (fst ` N - visited s) \<le> k \<Longrightarrow> \<exists>n s'. crawl E n url b s = Some s'"
proof (induction k arbitrary: url b s)
  case 0
  from N(1) have "finite (fst ` N - visited s)" by simp
  with 0 have "fst ` N - visited s = {}" by simp
  with 0(1) have "url \<in> visited s" by force
  then have "crawl E (Suc 0) url b s = Some s" by simp
  then show ?case by blast
next
  case (Suc k)
  show ?case
  proof (cases "url \<in> visited s")
    case True
    then have "crawl E (Suc 0) url b s = Some s" by simp
    then show ?thesis by blast
  next
    case False
    note unvisited = this
    show ?thesis
    proof (cases "requests_get E url")
      case (Inl e)
      with unvisited have "crawl E (Suc 0) url b s = Some (print_error url e (visit url s))"
        by (simp add: crawl_failed)
      then show ?thesis by blast
    next
      case (Inr content)
      let ?s3 = "store url (get_text (BeautifulSoup E content)) (visit url s)"
      let ?links = "find_all_a (BeautifulSoup E content)"
      from Suc.prems(1) have inU: "url \<in> fst ` N" by force
      have fin: "finite (fst ` N)" using N(1) by simp
      have eq: "fst ` N - visited ?s3 = (fst ` N - visited s) - {url}" by auto
      have "card ((fst ` N - visited s) - {url}) < card (fst ` N - visited s)"
        by (rule card_Diff1_less) (use fin inU unvisited in auto)
      then have "card (fst ` N - visited ?s3) < card (fst ` N - visited s)"
        by (simp only: eq)
      with Suc.prems(2) have small: "card (fst ` N - visited ?s3) \<le> k" by simp
      have "\<exists>n t'. crawl E n h (Some (py_or b url)) t = Some t'"
        if "h \<in> set (link_targets E url b ?links)" and "card (fst ` N - visited t) \<le> k" for h t
      proof -
        from that(1) Inr have "h \<in> set (page_links E url b)" by (simp add: page_links_def)
        with N(2) Suc.prems(1) have "(h, Some (py_or b url)) \<in> N"
          by (auto simp: closed_def)
        from Suc.IH[OF this that(2)] show ?thesis .
      qed
      from for_links_terminates[OF fin this small] obtain n r where
        "for_links (\<lambda>h. crawl E n h (Some (py_or b url))) E url b ?links ?s3 = Some r"
        by blast
      then have "\<exists>s'. crawl E (Suc n) url b s = Some s'"
        by (cases r) (auto simp: crawl_fetched[OF unvisited Inr] split: option.splits)
      then show ?thesis by blast
    qed
  qed
qed

lemma finite_reach:
  assumes "finite (fst ` reach E url b)"
  shows "finite (reach E url b)"
proof -
  let ?U = "fst ` reach E url b"
  have "(v, d) \<in> insert (url, b) (?U \<times> Some ` (insert (py_or b url) ?U))"
    if "(v, d) \<in> reach E url b" for v d
    using that
  proof (induction rule: reach.induct)
    case start
    show ?case by simp
  next
    case (link u c h)
    from link(1) have "u \<in> ?U" by force
    moreover from reach.link[OF link(1,2)] have "h \<in> ?U" by force
    moreover from link(3) have "py_or c u \<in> insert (py_or b url) ?U"
      using \<open>u \<in> ?U\<close> by (auto simp: py_or_def split: option.splits if_splits)
    ultimately show ?case by auto
  qed
  then have "reach E url b \<subseteq> insert (url, b) (?U \<times> Some ` (insert (py_or b url) ?U))"
    by auto
  moreover from assms have "finite (insert (url, b) (?U \<times> Some ` (insert (py_or b url) ?U)))"
    by simp
  ultimately show ?thesis by (rule finite_subset)
qed

lemma crawl_terminates:
  assumes "finite (fst ` reach E url b)"
  shows "\<exists>n s'. crawl E n url b s = Some s'"
  using crawl_terminates_closed[OF finite_reach[OF assms] reach_closed reach.start order_refl] .

lemma finite_reach_closed:
  assumes "closed E N" and "(url, b) \<in> N" and "finite N"
  shows "finite (fst ` reach E url b)"
  using reach_subset[OF assms(1,2)] assms(3) by (meson finite_imageI finite_subset)

subsection \<open>A link that does not resolve\<close>

lemma for_links_raises:
  assumes "href \<noteq> []" and "urljoin E (py_or b url) href = Inl e"
  shows "for_links rec E url b (pre @ Some href # post) s =
     (case for_links rec E url b pre s of
        None \<Rightarrow> None
      | Some (s', None) \<Rightarrow> Some (s', Some e)
      | Some (s', Some e') \<Rightarrow> Some (s', Some e'))"
proof (induction pre arbitrary: s)
  case Nil
  from assms show ?case by simp
next
  case (Cons link pre)
  show ?case
  proof (cases link)
    case None
    with Cons show ?thesis by simp
  next
    case (Some h)
    with Cons show ?thesis
      by (simp split: sum.splits option.splits)
  qed
qed

subsection \<open>The entry of the start URL\<close>

lemma crawl_index_start:
  assumes "crawl E n url b s = Some s'" and "url \<notin> visited s" and "requests_get E url = Inr content"
  shows "map_of (index s') url = Some (get_text (BeautifulSoup E content))"
proof -
  from assms(1) have "effect E s s'" by (rule crawl_effect)
  moreover from assms(1) have "url \<in> visited s'" by (rule crawl_visits_url)
  ultimately show ?thesis
    using assms(2,3) by (simp add: effect_def indexed_text_def)
qed

section \<open>Lemmas about the search pattern\<close>




lemma word_after_Nil [simp]: "word_after [] = False"
  by (simp add: word_after_def)

lemma word_after_Cons [simp]: "word_after (c # t) = is_word c"
  by (simp add: word_after_def)

lemma word_before_None [simp]: "word_before None = False"
  by (simp add: word_before_def)

lemma word_before_Some [simp]: "word_before (Some c) = is_word c"
  by (simp add: word_before_def)

lemma before_Nil [simp]: "before prev [] = prev"
  by (simp add: before_def)

lemma before_Cons [simp]: "before prev (c # pre) = before (Some c) pre"
  by (simp add: before_def)



lemma before_word:
  "word_before (before None pre) \<longleftrightarrow> pre \<noteq> [] \<and> is_word (last pre)"
  by (simp add: before_def)

lemma word_after_hd: "word_after post \<longleftrightarrow> post \<noteq> [] \<and> is_word (hd post)"
  by (cases post) simp_all




section \<open>The test sites, run\<close>

lemmas fixture_defs = mock_def pages_def parse_fixture_def urljoin_fixture_def

lemma cycle_run: "crawl site_cycle 3 ''https://example.com'' None init =
  Some \<lparr>index = [(''https://example.com'', ''B''), (''https://example.com/b'', ''A'')],
        visited = {''https://example.com/b'', ''https://example.com''},
        requested = [''https://example.com'', ''https://example.com/b''], stdout = []\<rparr>"
  by code_simp


lemma cycle_closed: "closed site_cycle
   {(''https://example.com'', None), (''https://example.com/b'', Some ''https://example.com''),
    (''https://example.com'', Some ''https://example.com'')}"
  by (simp add: closed_def page_links_def site_cycle_def fixture_defs py_or_def)

lemma cycle_finite: "finite (fst ` reach site_cycle ''https://example.com'' None)"
  by (rule finite_reach_closed[OF cycle_closed]) simp_all

lemma evil_run: "crawl site_evil 3 ''https://example.com'' None init =
  Some \<lparr>index = [(''https://example.com'', ''EvilExternal''), (''https://example.com.evil.com'', ''gotcha'')],
        visited = {''https://example.com.evil.com'', ''https://example.com''},
        requested = [''https://example.com'', ''https://example.com.evil.com''], stdout = []\<rparr>"
  by code_simp

lemma dup_run: "crawl site_dup 3 ''https://example.com'' None init =
  Some \<lparr>index = [(''https://example.com'', ''About UsAbout Us Again''),
                 (''https://example.com/about'', ''About UsAbout Us Again'')],
        visited = {''https://example.com/about'', ''https://example.com''},
        requested = [''https://example.com'', ''https://example.com/about''], stdout = []\<rparr>"
  by code_simp

lemma bad_run: "crawl site_bad 3 ''https://example.com'' None init =
  Some \<lparr>index = [(''https://example.com'', ''badB'')],
        visited = {''https://example.com''},
        requested = [''https://example.com''],
        stdout = [''Error crawling https://example.com: Invalid IPv6 URL'']\<rparr>"
  by code_simp

lemma fail_run: "crawl site_fail 3 ''https://example.com'' None init =
  Some \<lparr>index = [(''https://example.com'', ''BC''), (''https://example.com/c'', ''c page'')],
        visited = {''https://example.com/c'', ''https://example.com/b'', ''https://example.com''},
        requested = [''https://example.com'', ''https://example.com/b'', ''https://example.com/c''],
        stdout = [''Error crawling https://example.com/b: Test Error'']\<rparr>"
  by code_simp

lemma fail_closed: "closed site_fail
   {(''https://example.com'', None), (''https://example.com/b'', Some ''https://example.com''),
    (''https://example.com/c'', Some ''https://example.com'')}"
  by (simp add: closed_def page_links_def site_fail_def fixture_defs py_or_def)

lemma fail_finite: "finite (fst ` reach site_fail ''https://example.com'' None)"
  by (rule finite_reach_closed[OF fail_closed]) simp_all



section \<open>The scope of a crawl\<close>

text \<open>
  C1, as the claim states it, fails. Crawling \<^verbatim>\<open>https://example.com\<close>, a page that links
  to \<^verbatim>\<open>https://example.com.evil.com\<close>: the link starts with the base, so it is crawled,
  marked visited and indexed, although its origin is not the origin of the base.
\<close>

theorem prefix_scope_admits_other_origin:
  "crawl site_evil 3 ''https://example.com'' None init =
     Some \<lparr>index = [(''https://example.com'', ''EvilExternal''),
                    (''https://example.com.evil.com'', ''gotcha'')],
           visited = {''https://example.com.evil.com'', ''https://example.com''},
           requested = [''https://example.com'', ''https://example.com.evil.com''],
           stdout = []\<rparr>
   \<and> origin ''https://example.com.evil.com'' \<noteq> origin ''https://example.com''"
  by (simp add: evil_run origin_def)

text \<open>
  C1, amended. The scope test of the source is \<^verbatim>\<open>href.startswith(base_url or url)\<close>. A URL
  other than the start URL that does not start with the base is left alone by the whole
  call: it is visited after the call only if it was before, it is requested after the call
  only if it was before, and its index entry is the one it had.
\<close>

theorem crawl_stays_under_prefix:
  assumes "crawl E n url base_url s = Some s'"
    and "u \<noteq> url" and "\<not> prefix (py_or base_url url) u"
  shows "(u \<in> visited s' \<longleftrightarrow> u \<in> visited s) \<and>
         (u \<in> set (requested s') \<longleftrightarrow> u \<in> set (requested s)) \<and>
         map_of (index s') u = map_of (index s) u"
proof -
  from assms(1) have e: "effect E s s'" by (rule crawl_effect)
  from crawl_scope[OF assms(1)] assms(2,3) have new: "u \<notin> visited s' - visited s" by blast
  with e show ?thesis
    unfolding effect_def by auto
qed

theorem crawl_stays_under_prefix_witness:
  "crawl site_evil 3 ''https://example.com'' None init =
     Some \<lparr>index = [(''https://example.com'', ''EvilExternal''),
                    (''https://example.com.evil.com'', ''gotcha'')],
           visited = {''https://example.com.evil.com'', ''https://example.com''},
           requested = [''https://example.com'', ''https://example.com.evil.com''],
           stdout = []\<rparr> \<and>
   ''https://www.external.com'' \<noteq> ''https://example.com'' \<and>
   \<not> prefix (py_or None ''https://example.com'') ''https://www.external.com'' \<and>
   ''https://www.external.com'' \<notin> {''https://example.com.evil.com'', ''https://example.com''} \<and>
   map_of [(''https://example.com'', ''EvilExternal''), (''https://example.com.evil.com'', ''gotcha'')]
     ''https://www.external.com'' = None"
proof -
  have run: "crawl site_evil 3 ''https://example.com'' None init =
     Some \<lparr>index = [(''https://example.com'', ''EvilExternal''),
                    (''https://example.com.evil.com'', ''gotcha'')],
           visited = {''https://example.com.evil.com'', ''https://example.com''},
           requested = [''https://example.com'', ''https://example.com.evil.com''],
           stdout = []\<rparr>"
    by (rule evil_run)
  have other: "''https://www.external.com'' \<noteq> ''https://example.com''" by simp
  have out: "\<not> prefix (py_or None ''https://example.com'') ''https://www.external.com''"
    by (simp add: py_or_def)
  from crawl_stays_under_prefix[OF run other out] run other out show ?thesis
    by simp
qed

section \<open>Requesting a URL once\<close>

text \<open>
  C2. \<open>requested\<close> lists the calls of \<^verbatim>\<open>requests.get\<close>. When no URL has been requested
  twice so far and every requested URL is marked visited (as in a fresh crawler), the same
  holds after any call of \<open>crawl\<close>: no URL is requested twice, however many links point
  to it. On the page with two identical links the target is requested once; on the two
  pages that link to each other the call returns with both visited and each requested once.
\<close>

theorem crawl_requests_each_url_once:
  "(distinct (requested s) \<and> set (requested s) \<subseteq> visited s \<and> crawl E n url base_url s = Some s' \<longrightarrow>
      distinct (requested s') \<and> set (requested s') \<subseteq> visited s') \<and>
   crawl site_dup 3 ''https://example.com'' None init =
     Some \<lparr>index = [(''https://example.com'', ''About UsAbout Us Again''),
                    (''https://example.com/about'', ''About UsAbout Us Again'')],
           visited = {''https://example.com/about'', ''https://example.com''},
           requested = [''https://example.com'', ''https://example.com/about''],
           stdout = []\<rparr> \<and>
   crawl site_cycle 3 ''https://example.com'' None init =
     Some \<lparr>index = [(''https://example.com'', ''B''), (''https://example.com/b'', ''A'')],
           visited = {''https://example.com/b'', ''https://example.com''},
           requested = [''https://example.com'', ''https://example.com/b''],
           stdout = []\<rparr>"
proof -
  have "distinct (requested s') \<and> set (requested s') \<subseteq> visited s'"
    if "distinct (requested s)" and "set (requested s) \<subseteq> visited s"
      and "crawl E n url base_url s = Some s'"
  proof -
    from that(3) have "effect E s s'" by (rule crawl_effect)
    then obtain new where "visited s \<subseteq> visited s'" "requested s' = requested s @ new"
      "distinct new" "set new = visited s' - visited s"
      unfolding effect_def by blast
    with that(1,2) show ?thesis by auto
  qed
  then show ?thesis
    by (simp add: dup_run cycle_run)
qed

theorem crawl_requests_each_url_once_witness:
  "distinct (requested init) \<and> set (requested init) \<subseteq> visited init \<and>
   crawl site_cycle 3 ''https://example.com'' None init =
     Some \<lparr>index = [(''https://example.com'', ''B''), (''https://example.com/b'', ''A'')],
           visited = {''https://example.com/b'', ''https://example.com''},
           requested = [''https://example.com'', ''https://example.com/b''],
           stdout = []\<rparr> \<and>
   distinct [''https://example.com'', ''https://example.com/b''] \<and>
   set [''https://example.com'', ''https://example.com/b'']
     \<subseteq> {''https://example.com/b'', ''https://example.com''}"
  using crawl_requests_each_url_once[of init site_cycle 3 "''https://example.com''" None
    "\<lparr>index = [(''https://example.com'', ''B''), (''https://example.com/b'', ''A'')],
           visited = {''https://example.com/b'', ''https://example.com''},
           requested = [''https://example.com'', ''https://example.com/b''],
           stdout = []\<rparr>"]
  by (simp add: cycle_run)

section \<open>Errors while crawling\<close>

text \<open>
  C4, as the claim states it, fails. The page of \<^verbatim>\<open>https://example.com\<close> has the links
  \<^verbatim>\<open>http://[\<close> and \<^verbatim>\<open>/b\<close>. \<^verbatim>\<open>urljoin\<close> raises on the first; the second resolves to a URL
  in scope, and the call returns without having visited it.
\<close>

theorem unresolvable_link_ends_the_page:
  "crawl site_bad 3 ''https://example.com'' None init =
     Some \<lparr>index = [(''https://example.com'', ''badB'')],
           visited = {''https://example.com''},
           requested = [''https://example.com''],
           stdout = [''Error crawling https://example.com: Invalid IPv6 URL'']\<rparr> \<and>
   find_all_a (BeautifulSoup site_bad ''<a href=http://[>bad</a><a href=/b>B</a>'') =
     [Some ''http://['', Some ''/b''] \<and>
   urljoin site_bad ''https://example.com'' ''/b'' = Inr ''https://example.com/b'' \<and>
   prefix ''https://example.com'' ''https://example.com/b''"
  by (simp add: bad_run) (simp add: site_bad_def fixture_defs)

text \<open>
  C4, amended. The \<^verbatim>\<open>try\<close> block encloses the whole loop. When \<^verbatim>\<open>urljoin\<close> raises on a
  link of a page, the links before it have been processed, the links after it are not
  looked at, and the call for that page prints the error and returns: the result is that
  of the loop over the links before, followed by the \<^verbatim>\<open>print\<close>. The caller's loop goes on.
\<close>

theorem resolution_error_skips_rest_of_page:
  assumes "url \<notin> visited s" and "requests_get E url = Inr content"
    and "find_all_a (BeautifulSoup E content) = pre @ Some href # post"
    and "href \<noteq> []" and "urljoin E (py_or base_url url) href = Inl e"
  shows "crawl E (Suc n) url base_url s =
     (case for_links (\<lambda>h. crawl E n h (Some (py_or base_url url))) E url base_url pre
             (store url (get_text (BeautifulSoup E content)) (visit url s)) of
        None \<Rightarrow> None
      | Some (s', x) \<Rightarrow> Some (print_error url (case x of None \<Rightarrow> e | Some e' \<Rightarrow> e') s'))"
  by (simp add: crawl_fetched[OF assms(1,2)] assms(3) for_links_raises[OF assms(4,5)]
      split: option.splits)

theorem resolution_error_skips_rest_of_page_witness:
  "''https://example.com'' \<notin> visited init \<and>
   requests_get site_bad ''https://example.com'' = Inr ''<a href=http://[>bad</a><a href=/b>B</a>'' \<and>
   find_all_a (BeautifulSoup site_bad ''<a href=http://[>bad</a><a href=/b>B</a>'') =
     [] @ Some ''http://['' # [Some ''/b''] \<and>
   ''http://['' \<noteq> [] \<and>
   urljoin site_bad (py_or None ''https://example.com'') ''http://['' = Inl (Exception ''Invalid IPv6 URL'') \<and>
   crawl site_bad (Suc 0) ''https://example.com'' None init =
     Some (print_error ''https://example.com'' (Exception ''Invalid IPv6 URL'')
            (store ''https://example.com'' ''badB'' (visit ''https://example.com'' init)))"
proof -
  have a: "''https://example.com'' \<notin> visited init" by simp
  have b: "requests_get site_bad ''https://example.com'' = Inr ''<a href=http://[>bad</a><a href=/b>B</a>''"
    by (simp add: site_bad_def fixture_defs)
  have c: "find_all_a (BeautifulSoup site_bad ''<a href=http://[>bad</a><a href=/b>B</a>'') =
     [] @ Some ''http://['' # [Some ''/b'']"
    by (simp add: site_bad_def fixture_defs)
  have d: "''http://['' \<noteq> []" by simp
  have e: "urljoin site_bad (py_or None ''https://example.com'') ''http://['' = Inl (Exception ''Invalid IPv6 URL'')"
    by (simp add: site_bad_def fixture_defs py_or_def)
  have t: "get_text (BeautifulSoup site_bad ''<a href=http://[>bad</a><a href=/b>B</a>'') = ''badB''"
    by (simp add: site_bad_def fixture_defs)
  from resolution_error_skips_rest_of_page[OF a b c d e, of 0]
  have "crawl site_bad (Suc 0) ''https://example.com'' None init =
     Some (print_error ''https://example.com'' (Exception ''Invalid IPv6 URL'')
            (store ''https://example.com'' ''badB'' (visit ''https://example.com'' init)))"
    by (simp add: t)
  with a b c d e show ?thesis by blast
qed

section \<open>Failed requests\<close>

text \<open>
  C6. Page \<open>A\<close> is fetched and links to \<open>B\<close>, and the request for \<open>B\<close> raises. When
  the URLs reachable from \<open>A\<close> are finitely many, the call for \<open>A\<close> returns. Whenever
  it returns, the text of \<open>A\<close> is in the index and every link of \<open>A\<close> that the loop
  follows, \<open>B\<close> and the links after \<open>B\<close> among them, has been visited. A call for
  \<open>B\<close> itself returns a state, with the error printed: nothing is raised to the caller.
\<close>

theorem fetch_failure_is_local:
  assumes "A \<notin> visited s" and "requests_get E A = Inr content"
    and "B \<in> set (page_links E A base_url)" and "requests_get E B = Inl e"
  shows "(finite (fst ` reach E A base_url) \<longrightarrow> (\<exists>n s'. crawl E n A base_url s = Some s')) \<and>
         (\<forall>n s'. crawl E n A base_url s = Some s' \<longrightarrow>
            map_of (index s') A = Some (get_text (BeautifulSoup E content)) \<and>
            set (page_links E A base_url) \<subseteq> visited s' \<and> B \<in> visited s') \<and>
         (\<forall>n b t. B \<notin> visited t \<longrightarrow>
            crawl E (Suc n) B b t = Some (print_error B e (visit B t)))"
proof (intro conjI allI impI)
  assume "finite (fst ` reach E A base_url)"
  then show "\<exists>n s'. crawl E n A base_url s = Some s'" by (rule crawl_terminates)
next
  fix n s'
  assume c: "crawl E n A base_url s = Some s'"
  from c assms(1,2) show "map_of (index s') A = Some (get_text (BeautifulSoup E content))"
    by (rule crawl_index_start)
  from c assms(1) show sub: "set (page_links E A base_url) \<subseteq> visited s'"
    by (rule crawl_targets_visited)
  with assms(3) show "B \<in> visited s'" by blast
next
  fix n b and t :: crawler
  assume "B \<notin> visited t"
  then show "crawl E (Suc n) B b t = Some (print_error B e (visit B t))"
    using assms(4) by (rule crawl_failed)
qed

theorem fetch_failure_is_local_witness:
  "''https://example.com'' \<notin> visited init \<and>
   requests_get site_fail ''https://example.com'' = Inr ''<a href=/b>B</a><a href=/c>C</a>'' \<and>
   ''https://example.com/b'' \<in> set (page_links site_fail ''https://example.com'' None) \<and>
   requests_get site_fail ''https://example.com/b'' = Inl (Exception ''Test Error'') \<and>
   finite (fst ` reach site_fail ''https://example.com'' None) \<and>
   crawl site_fail 3 ''https://example.com'' None init =
     Some \<lparr>index = [(''https://example.com'', ''BC''), (''https://example.com/c'', ''c page'')],
           visited = {''https://example.com/c'', ''https://example.com/b'', ''https://example.com''},
           requested = [''https://example.com'', ''https://example.com/b'', ''https://example.com/c''],
           stdout = [''Error crawling https://example.com/b: Test Error'']\<rparr> \<and>
   map_of [(''https://example.com'', ''BC''), (''https://example.com/c'', ''c page'')] ''https://example.com''
     = Some (get_text (BeautifulSoup site_fail ''<a href=/b>B</a><a href=/c>C</a>'')) \<and>
   set (page_links site_fail ''https://example.com'' None)
     \<subseteq> {''https://example.com/c'', ''https://example.com/b'', ''https://example.com''} \<and>
   (\<exists>n s'. crawl site_fail n ''https://example.com'' None init = Some s')"
proof -
  have a: "''https://example.com'' \<notin> visited init" by simp
  have b: "requests_get site_fail ''https://example.com'' = Inr ''<a href=/b>B</a><a href=/c>C</a>''"
    by (simp add: site_fail_def fixture_defs)
  have c: "''https://example.com/b'' \<in> set (page_links site_fail ''https://example.com'' None)"
    by (simp add: page_links_def site_fail_def fixture_defs py_or_def)
  have d: "requests_get site_fail ''https://example.com/b'' = Inl (Exception ''Test Error'')"
    by (simp add: site_fail_def fixture_defs)
  note inst = fetch_failure_is_local[OF a b c d]
  from inst fail_finite have "\<exists>n s'. crawl site_fail n ''https://example.com'' None init = Some s'"
    by blast
  moreover from inst fail_run
  have "map_of (index \<lparr>index = [(''https://example.com'', ''BC''), (''https://example.com/c'', ''c page'')],
           visited = {''https://example.com/c'', ''https://example.com/b'', ''https://example.com''},
           requested = [''https://example.com'', ''https://example.com/b'', ''https://example.com/c''],
           stdout = [''Error crawling https://example.com/b: Test Error'']\<rparr>) ''https://example.com''
     = Some (get_text (BeautifulSoup site_fail ''<a href=/b>B</a><a href=/c>C</a>'')) \<and>
   set (page_links site_fail ''https://example.com'' None)
     \<subseteq> visited \<lparr>index = [(''https://example.com'', ''BC''), (''https://example.com/c'', ''c page'')],
           visited = {''https://example.com/c'', ''https://example.com/b'', ''https://example.com''},
           requested = [''https://example.com'', ''https://example.com/b'', ''https://example.com/c''],
           stdout = [''Error crawling https://example.com/b: Test Error'']\<rparr>"
    by blast
  ultimately show ?thesis
    using a b c d fail_finite fail_run by simp
qed

section \<open>Termination of a crawl\<close>

text \<open>
  C7. When the URLs reachable from the start URL through the links \<open>crawl\<close> follows are
  finitely many, the call returns: some depth is enough, and every greater depth gives the
  same state. A URL is marked visited before it is requested: if every requested URL is
  marked in the state the call starts from, the same holds in the state it returns.
\<close>

theorem crawl_terminates_on_finite_graph:
  assumes "finite (fst ` reach E url base_url)" and "set (requested s) \<subseteq> visited s"
  shows "\<exists>n s'. (\<forall>m. n \<le> m \<longrightarrow> crawl E m url base_url s = Some s') \<and>
           set (requested s') \<subseteq> visited s'"
proof -
  from assms(1) obtain n s' where c: "crawl E n url base_url s = Some s'"
    using crawl_terminates by blast
  then have "effect E s s'" by (rule crawl_effect)
  then obtain new where "visited s \<subseteq> visited s'" "requested s' = requested s @ new"
    "set new = visited s' - visited s"
    unfolding effect_def by blast
  with assms(2) have "set (requested s') \<subseteq> visited s'" by auto
  moreover from c have "\<forall>m. n \<le> m \<longrightarrow> crawl E m url base_url s = Some s'"
    by (auto intro: crawl_mono)
  ultimately show ?thesis by blast
qed

theorem crawl_terminates_on_finite_graph_witness:
  "finite (fst ` reach site_cycle ''https://example.com'' None) \<and>
   set (requested init) \<subseteq> visited init \<and>
   (\<exists>n s'. crawl site_cycle n ''https://example.com'' None init = Some s' \<and>
      set (requested s') \<subseteq> visited s')"
proof -
  have r: "set (requested init) \<subseteq> visited init" by simp
  from crawl_terminates_on_finite_graph[OF cycle_finite r]
  have "\<exists>n s'. crawl site_cycle n ''https://example.com'' None init = Some s' \<and>
      set (requested s') \<subseteq> visited s'"
    by blast
  with cycle_finite r show ?thesis by blast
qed

section \<open>The index\<close>



text \<open>
  C10. When every key of the index is a visited URL (as in a fresh crawler), the same
  holds after a call of \<open>crawl\<close>. A URL that the call requested and whose request raised
  is visited afterwards and has no entry in the index, as before the call.
\<close>

theorem index_keys_are_visited:
  assumes "fst ` set (index s) \<subseteq> visited s" and "crawl E n url base_url s = Some s'"
  shows "fst ` set (index s') \<subseteq> visited s' \<and>
         (\<forall>u e. u \<in> set (requested s') \<and> u \<notin> set (requested s) \<and> requests_get E u = Inl e \<longrightarrow>
            u \<in> visited s' \<and> u \<notin> fst ` set (index s') \<and>
            map_of (index s') u = map_of (index s) u)"
proof -
  from assms(2) have eff: "effect E s s'" by (rule crawl_effect)
  then obtain new where sub: "visited s \<subseteq> visited s'" and req: "requested s' = requested s @ new"
    and new: "set new = visited s' - visited s"
    and idx: "\<And>u. map_of (index s') u =
        (if u \<in> visited s' \<and> u \<notin> visited s then indexed_text E u (map_of (index s) u)
         else map_of (index s) u)"
    unfolding effect_def by blast
  have keys: "fst ` set (index t) = dom (map_of (index t))" for t :: crawler
    by (simp add: dom_map_of_conv_image_fst)
  have "u \<in> visited s'" if "u \<in> dom (map_of (index s'))" for u
  proof (cases "u \<in> visited s' \<and> u \<notin> visited s")
    case True
    then show ?thesis by simp
  next
    case False
    with idx[of u] have "map_of (index s') u = map_of (index s) u" by simp
    with that have "u \<in> dom (map_of (index s))" by (simp add: domIff)
    with assms(1) sub show ?thesis by (auto simp: keys)
  qed
  then have k: "fst ` set (index s') \<subseteq> visited s'" by (auto simp: keys)
  have "u \<in> visited s' \<and> u \<notin> fst ` set (index s') \<and> map_of (index s') u = map_of (index s) u"
    if "u \<in> set (requested s')" and "u \<notin> set (requested s)" and "requests_get E u = Inl e" for u e
  proof -
    from that(1,2) req new have n: "u \<in> visited s'" "u \<notin> visited s" by auto
    with assms(1) have "map_of (index s) u = None"
      by (auto simp: keys)
    moreover from idx[of u] n that(3) have "map_of (index s') u = map_of (index s) u"
      by (simp add: indexed_text_def)
    ultimately show ?thesis using n by (auto simp: keys)
  qed
  with k show ?thesis by blast
qed

theorem index_keys_are_visited_witness:
  "fst ` set (index init) \<subseteq> visited init \<and>
   crawl site_fail 3 ''https://example.com'' None init =
     Some \<lparr>index = [(''https://example.com'', ''BC''), (''https://example.com/c'', ''c page'')],
           visited = {''https://example.com/c'', ''https://example.com/b'', ''https://example.com''},
           requested = [''https://example.com'', ''https://example.com/b'', ''https://example.com/c''],
           stdout = [''Error crawling https://example.com/b: Test Error'']\<rparr> \<and>
   requests_get site_fail ''https://example.com/b'' = Inl (Exception ''Test Error'') \<and>
   fst ` set [(''https://example.com'', ''BC''), (''https://example.com/c'', ''c page'')]
     \<subseteq> {''https://example.com/c'', ''https://example.com/b'', ''https://example.com''} \<and>
   ''https://example.com/b'' \<in> {''https://example.com/c'', ''https://example.com/b'', ''https://example.com''} \<and>
   ''https://example.com/b'' \<notin> fst ` set [(''https://example.com'', ''BC''), (''https://example.com/c'', ''c page'')]"
proof -
  have a: "fst ` set (index init) \<subseteq> visited init" by simp
  have d: "requests_get site_fail ''https://example.com/b'' = Inl (Exception ''Test Error'')"
    by (simp add: site_fail_def fixture_defs)
  from index_keys_are_visited[OF a fail_run] d
  have "fst ` set [(''https://example.com'', ''BC''), (''https://example.com/c'', ''c page'')]
     \<subseteq> {''https://example.com/c'', ''https://example.com/b'', ''https://example.com''} \<and>
   ''https://example.com/b'' \<in> {''https://example.com/c'', ''https://example.com/b'', ''https://example.com''} \<and>
   ''https://example.com/b'' \<notin> fst ` set [(''https://example.com'', ''BC''), (''https://example.com/c'', ''c page'')]"
    by simp
  with a d fail_run show ?thesis by blast
qed

section \<open>Searching for a keyword\<close>







section \<open>Searching an empty index\<close>

text \<open>
  C9. On a freshly constructed crawler, whose index is empty, \<open>search\<close> returns the empty
  list for every keyword; the model of \<open>search\<close> has no failing branch.
\<close>

theorem search_fresh_index_empty: "search init keyword = []"
  by (simp add: search_def)

theorem search_fresh_index_empty_witness: "search init ''anything'' = []"
  using search_fresh_index_empty [of "''anything''"] .

end
